theory Spec2Isabelle
  imports Main "HOL-Library.Word"
begin

unbundle bit_operations_syntax

section \<open>The PowerNV cpuidle driver (drivers/cpuidle/cpuidle-powernv.c)\<close>

type_synonym u8 = "8 word"
type_synonym u32 = "32 word"
type_synonym u64 = "64 word"

subsection \<open>Flags and constants used in PowerNV platform\<close>

definition MAX_POWERNV_IDLE_STATES :: nat where
  "MAX_POWERNV_IDLE_STATES = 8"

definition IDLE_USE_INST_NAP :: u32 where
  "IDLE_USE_INST_NAP = 0x00010000"

definition IDLE_USE_INST_SLEEP :: u32 where
  "IDLE_USE_INST_SLEEP = 0x00020000"

subsection \<open>The processor as the entry routines see it\<close>

text \<open>
  The entry routines act on one hardware thread: the LPCR special purpose register, the
  run latch, the thread priority set by the \<open>HMT_*\<close> hints, the interrupt enable bit and
  the \<open>TIF_POLLING_NRFLAG\<close> thread flag. \<open>hw_trace\<close> records, in program order, every
  write to the LPCR and every halt primitive the driver executes.
\<close>

datatype hmt_priority = Prio_very_low | Prio_low | Prio_medium

datatype hw_event = Ev_mtspr_LPCR u64 | Ev_power7_idle | Ev_power7_sleep | Ev_smp_mb

record machine =
  SPRN_LPCR :: u64
  system_state :: int
  irq_enabled :: bool
  TIF_POLLING_NRFLAG :: bool
  runlatch :: bool
  hmt :: hmt_priority
  tb :: u64
  snooze_exit_time :: u64
  hw_trace :: "hw_event list"

text \<open>
  What the file takes from the kernel headers and the platform code: the LPCR bit masks
  of \<open>asm/reg.h\<close>, the value of \<open>SYSTEM_RUNNING\<close> in \<open>enum system_states\<close>, and the
  two halt primitives \<open>power7_idle\<close> and \<open>power7_sleep\<close>, whose effect on the thread while
  it is halted is whatever the hardware does. \<open>need_resched_at k\<close> is what the
  \<open>k\<close>-th call of \<open>need_resched()\<close> in the polling loop observes; the flag it reads is
  set by other processors and by interrupts.
\<close>

record platform =
  LPCR_MER :: u64
  LPCR_PECE :: u64
  LPCR_PECE0 :: u64
  SYSTEM_RUNNING :: int
  power7_idle_hw :: "machine \<Rightarrow> machine"
  power7_sleep_hw :: "machine \<Rightarrow> machine"
  need_resched_at :: "nat \<Rightarrow> bool"

definition mfspr_LPCR :: "machine \<Rightarrow> u64" where
  "mfspr_LPCR m = SPRN_LPCR m"

definition mtspr_LPCR :: "u64 \<Rightarrow> machine \<Rightarrow> machine" where
  "mtspr_LPCR v m = m\<lparr>SPRN_LPCR := v, hw_trace := hw_trace m @ [Ev_mtspr_LPCR v]\<rparr>"

definition power7_idle :: "platform \<Rightarrow> machine \<Rightarrow> machine" where
  "power7_idle p m = (power7_idle_hw p m)\<lparr>hw_trace := hw_trace m @ [Ev_power7_idle]\<rparr>"

definition power7_sleep :: "platform \<Rightarrow> machine \<Rightarrow> machine" where
  "power7_sleep p m = (power7_sleep_hw p m)\<lparr>hw_trace := hw_trace m @ [Ev_power7_sleep]\<rparr>"

definition ppc64_runlatch_off :: "machine \<Rightarrow> machine" where
  "ppc64_runlatch_off m = m\<lparr>runlatch := False\<rparr>"

definition ppc64_runlatch_on :: "machine \<Rightarrow> machine" where
  "ppc64_runlatch_on m = m\<lparr>runlatch := True\<rparr>"

definition local_irq_enable :: "machine \<Rightarrow> machine" where
  "local_irq_enable m = m\<lparr>irq_enabled := True\<rparr>"

definition set_thread_flag_POLLING_NRFLAG :: "machine \<Rightarrow> machine" where
  "set_thread_flag_POLLING_NRFLAG m = m\<lparr>TIF_POLLING_NRFLAG := True\<rparr>"

definition clear_thread_flag_POLLING_NRFLAG :: "machine \<Rightarrow> machine" where
  "clear_thread_flag_POLLING_NRFLAG m = m\<lparr>TIF_POLLING_NRFLAG := False\<rparr>"

definition get_tb :: "machine \<Rightarrow> u64" where
  "get_tb m = tb m"

definition HMT_low :: "machine \<Rightarrow> machine" where
  "HMT_low m = m\<lparr>hmt := Prio_low\<rparr>"

definition HMT_very_low :: "machine \<Rightarrow> machine" where
  "HMT_very_low m = m\<lparr>hmt := Prio_very_low\<rparr>"

definition HMT_medium :: "machine \<Rightarrow> machine" where
  "HMT_medium m = m\<lparr>hmt := Prio_medium\<rparr>"

definition smp_mb :: "machine \<Rightarrow> machine" where
  "smp_mb m = m\<lparr>hw_trace := hw_trace m @ [Ev_smp_mb]\<rparr>"

subsection \<open>The state table\<close>

text \<open>
  \<open>struct cpuidle_state\<close> as this file uses it. \<open>enter\<close> is a function pointer: \<open>None\<close>
  is \<open>NULL\<close>, and the three routines of this file are the only targets. \<open>flags\<close> is
  the set of \<open>CPUIDLE_FLAG_*\<close> bits that are set.
\<close>

datatype enter_fn = Addr_snooze_loop | Addr_nap_loop | Addr_fastsleep_loop

datatype cpuidle_flag = CPUIDLE_FLAG_TIME_VALID | CPUIDLE_FLAG_TIMER_STOP

record cpuidle_state =
  name :: string
  desc :: string
  flags :: "cpuidle_flag set"
  exit_latency :: u32
  target_residency :: u32
  disabled :: bool
  enter :: "enter_fn option"

record cpuidle_state_usage =
  disable :: bool

record cpuidle_driver =
  states :: "cpuidle_state list"
  state_count :: int

record cpuidle_device =
  enabled :: bool
  states_usage :: "cpuidle_state_usage list"

text \<open>
  The file-scope variables the timeout computation reads, with \<open>tb_ticks_per_usec\<close> of
  the platform's time code.
\<close>

record snooze_globals =
  default_snooze_timeout :: u64
  snooze_timeout_en :: bool
  tb_ticks_per_usec :: u64

text \<open>
  Where C leaves the behaviour undefined the model stops with a fault that names the
  access: an index outside \<open>drv->states\<close> or \<open>dev->states_usage\<close>, the signed overflow
  of \<open>index + 1\<close>, a cell read past the end of a device tree property, and a store to
  \<open>powernv_states[n]\<close> with \<open>n\<close> outside the array.
\<close>

datatype fault =
    Drv_states_out_of_bounds int
  | Dev_states_usage_out_of_bounds int
  | Index_overflow
  | Property_read_out_of_bounds nat
  | Powernv_states_out_of_bounds nat

subsection \<open>get_snooze_timeout and snooze_loop\<close>

function snooze_scan ::
  "cpuidle_device \<Rightarrow> cpuidle_driver \<Rightarrow> snooze_globals \<Rightarrow> int \<Rightarrow> fault + u64" where
  "snooze_scan dev drv g i =
     (if i < state_count drv then
        if i < 0 \<or> int (length (states drv)) \<le> i then Inl (Drv_states_out_of_bounds i)
        else
          let s = states drv ! nat i in
          if disabled s then snooze_scan dev drv g (i + 1)
          else if int (length (states_usage dev)) \<le> i
          then Inl (Dev_states_usage_out_of_bounds i)
          else
            let su = states_usage dev ! nat i in
            if disable su then snooze_scan dev drv g (i + 1)
            else Inr (ucast (target_residency s) * tb_ticks_per_usec g)
      else Inr (default_snooze_timeout g))"
  by pat_completeness auto
termination
  by (relation "measure (\<lambda>(dev, drv, g, i). nat (state_count drv - i))") auto

definition get_snooze_timeout ::
  "snooze_globals \<Rightarrow> cpuidle_device \<Rightarrow> cpuidle_driver \<Rightarrow> int \<Rightarrow> fault + u64" where
  "get_snooze_timeout g dev drv index =
     (if \<not> snooze_timeout_en g then Inr (default_snooze_timeout g)
      else if index = 2147483647 then Inl Index_overflow
      else snooze_scan dev drv g (index + 1))"

text \<open>
  The polling loop \<open>while (!need_resched()) { HMT_low(); HMT_very_low(); }\<close>. It runs
  for as long as no work is pending, so it need not return: \<open>None\<close> is the loop that
  never sees \<open>need_resched()\<close> become true.
\<close>

partial_function (option) snooze_poll :: "platform \<Rightarrow> nat \<Rightarrow> machine \<Rightarrow> machine option" where
  "snooze_poll p k m =
     (if need_resched_at p k then Some m
      else snooze_poll p (Suc k) (HMT_very_low (HMT_low m)))"

definition snooze_loop ::
  "platform \<Rightarrow> snooze_globals \<Rightarrow> cpuidle_device \<Rightarrow> cpuidle_driver \<Rightarrow> machine \<Rightarrow> int
     \<Rightarrow> (fault + int \<times> machine) option" where
  "snooze_loop p g dev drv m index =
     (let m1 = local_irq_enable m;
          m2 = set_thread_flag_POLLING_NRFLAG m1
      in case get_snooze_timeout g dev drv index of
           Inl f \<Rightarrow> Some (Inl f)
         | Inr timeout \<Rightarrow>
             let m3 = m2\<lparr>snooze_exit_time := get_tb m2 + timeout\<rparr>;
                 m4 = ppc64_runlatch_off m3
             in (case snooze_poll p 0 m4 of
                   None \<Rightarrow> None
                 | Some m5 \<Rightarrow>
                     (let m6 = HMT_medium m5;
                          m7 = ppc64_runlatch_on m6;
                          m8 = clear_thread_flag_POLLING_NRFLAG m7;
                          m9 = smp_mb m8
                      in Some (Inr (index, m9)))))"

subsection \<open>nap_loop and fastsleep_loop\<close>

definition nap_loop :: "platform \<Rightarrow> machine \<Rightarrow> int \<Rightarrow> int \<times> machine" where
  "nap_loop p m index =
     (let m1 = ppc64_runlatch_off m;
          m2 = power7_idle p m1;
          m3 = ppc64_runlatch_on m2
      in (index, m3))"

definition fastsleep_loop :: "platform \<Rightarrow> machine \<Rightarrow> int \<Rightarrow> int \<times> machine" where
  "fastsleep_loop p m index =
     (let old_lpcr = mfspr_LPCR m in
      if system_state m < SYSTEM_RUNNING p then (index, m)
      else
        let new_lpcr = old_lpcr;
            new_lpcr = new_lpcr AND NOT (LPCR_MER p OR LPCR_PECE p);
            new_lpcr = new_lpcr OR LPCR_PECE0 p;
            m1 = mtspr_LPCR new_lpcr m;
            m2 = power7_sleep p m1;
            m3 = mtspr_LPCR old_lpcr m2
        in (index, m3))"

subsection \<open>The hotplug notifier\<close>

text \<open>
  The notifier acts on the cpuidle core: the per-CPU device pointers
  \<open>per_cpu(cpuidle_devices, cpu)\<close> (\<open>None\<close> is a \<open>NULL\<close> pointer), the registered
  driver that \<open>cpuidle_get_driver()\<close> returns (\<open>None\<close> is \<open>NULL\<close>) and the
  pause-and-lock section, whose entries and exits \<open>lock_trace\<close> records in order.
  The action codes of \<open>linux/cpu.h\<close> and the two device operations of the cpuidle core
  are taken as given.
\<close>

datatype notify = NOTIFY_DONE | NOTIFY_OK | NOTIFY_BAD

datatype lock_event = Ev_cpuidle_pause_and_lock | Ev_cpuidle_resume_and_unlock

record cpuidle_core =
  cpuidle_devices :: "int \<rightharpoonup> cpuidle_device"
  cpuidle_curr_driver :: "cpuidle_driver option"
  lock_trace :: "lock_event list"

record cpuidle_api =
  CPU_ONLINE :: u64
  CPU_ONLINE_FROZEN :: u64
  CPU_DEAD :: u64
  CPU_DEAD_FROZEN :: u64
  cpuidle_enable_device :: "cpuidle_device \<Rightarrow> cpuidle_device"
  cpuidle_disable_device :: "cpuidle_device \<Rightarrow> cpuidle_device"

definition cpuidle_get_driver :: "cpuidle_core \<Rightarrow> cpuidle_driver option" where
  "cpuidle_get_driver c = cpuidle_curr_driver c"

definition cpuidle_pause_and_lock :: "cpuidle_core \<Rightarrow> cpuidle_core" where
  "cpuidle_pause_and_lock c = c\<lparr>lock_trace := lock_trace c @ [Ev_cpuidle_pause_and_lock]\<rparr>"

definition cpuidle_resume_and_unlock :: "cpuidle_core \<Rightarrow> cpuidle_core" where
  "cpuidle_resume_and_unlock c =
     c\<lparr>lock_trace := lock_trace c @ [Ev_cpuidle_resume_and_unlock]\<rparr>"

definition powernv_cpuidle_add_cpu_notifier ::
  "cpuidle_api \<Rightarrow> cpuidle_core \<Rightarrow> u64 \<Rightarrow> u64 \<Rightarrow> notify \<times> cpuidle_core" where
  "powernv_cpuidle_add_cpu_notifier k c action hcpu =
     (let hotcpu = sint (ucast hcpu :: u32) in
      case cpuidle_devices c hotcpu of
        None \<Rightarrow> (NOTIFY_OK, c)
      | Some dev \<Rightarrow>
          (if cpuidle_get_driver c = None then (NOTIFY_OK, c)
           else if action = CPU_ONLINE k \<or> action = CPU_ONLINE_FROZEN k then
             (let c1 = cpuidle_pause_and_lock c;
                  c2 = c1\<lparr>cpuidle_devices :=
                         (cpuidle_devices c1)(hotcpu \<mapsto> cpuidle_enable_device k dev)\<rparr>;
                  c3 = cpuidle_resume_and_unlock c2
              in (NOTIFY_OK, c3))
           else if action = CPU_DEAD k \<or> action = CPU_DEAD_FROZEN k then
             (let c1 = cpuidle_pause_and_lock c;
                  c2 = c1\<lparr>cpuidle_devices :=
                         (cpuidle_devices c1)(hotcpu \<mapsto> cpuidle_disable_device k dev)\<rparr>;
                  c3 = cpuidle_resume_and_unlock c2
              in (NOTIFY_OK, c3))
           else (NOTIFY_DONE, c)))"

subsection \<open>The device tree and powernv_add_idle_states\<close>

text \<open>
  A device tree maps a path to a node, and a node maps a property name to the property's
  value, a string of bytes. \<open>of_get_property\<close> returns the value with its length in
  bytes, or \<open>None\<close> for the \<open>NULL\<close> it returns when the node has no such property.
\<close>

type_synonym device_node = "string \<rightharpoonup> u8 list"
type_synonym device_tree = "string \<rightharpoonup> device_node"

definition of_find_node_by_path :: "device_tree \<Rightarrow> string \<Rightarrow> device_node option" where
  "of_find_node_by_path dt path = dt path"

definition of_get_property :: "device_node \<Rightarrow> string \<Rightarrow> (u8 list \<times> nat) option" where
  "of_get_property np pname = map_option (\<lambda>v. (v, length v)) (np pname)"

text \<open>
  \<open>be32_to_cpu(prop[i])\<close>: the \<open>i\<close>-th 32-bit cell of a property, most significant
  byte first. A cell that is not wholly inside the property is a read out of bounds.
\<close>

definition be32_value :: "u8 list \<Rightarrow> nat \<Rightarrow> u32" where
  "be32_value v i =
     push_bit 24 (ucast (v ! (4 * i))) OR push_bit 16 (ucast (v ! (4 * i + 1)))
     OR push_bit 8 (ucast (v ! (4 * i + 2))) OR ucast (v ! (4 * i + 3))"

definition be32_to_cpu_cell :: "u8 list \<Rightarrow> nat \<Rightarrow> fault + u32" where
  "be32_to_cpu_cell v i =
     (if 4 * i + 3 < length v then Inr (be32_value v i)
      else Inl (Property_read_out_of_bounds i))"

definition zero_state :: cpuidle_state where
  "zero_state =
     \<lparr>name = [], desc = [], flags = {}, exit_latency = 0, target_residency = 0,
      disabled = False, enter = None\<rparr>"

text \<open>States for dedicated partition case: the static initialiser of the table.\<close>

definition powernv_states :: "cpuidle_state list" where
  "powernv_states =
     [\<lparr>name = ''snooze'', desc = ''snooze'', flags = {CPUIDLE_FLAG_TIME_VALID},
       exit_latency = 0, target_residency = 0, disabled = False,
       enter = Some Addr_snooze_loop\<rparr>,
      \<lparr>name = ''NAP'', desc = ''NAP'', flags = {CPUIDLE_FLAG_TIME_VALID},
       exit_latency = 10, target_residency = 100, disabled = False,
       enter = Some Addr_nap_loop\<rparr>,
      \<lparr>name = ''fastsleep'', desc = ''fastsleep'', flags = {CPUIDLE_FLAG_TIME_VALID},
       exit_latency = 10, target_residency = 100, disabled = False,
       enter = Some Addr_fastsleep_loop\<rparr>]
     @ replicate (MAX_POWERNV_IDLE_STATES - 3) zero_state"

text \<open>
  The two blocks of the loop body. Each stores six fields of \<open>powernv_states[nr]\<close> and
  increments \<open>nr_idle_states\<close>; the source has no test of \<open>nr\<close> against the array's
  size, so a store at an index outside the array is the C program's undefined behaviour.
\<close>

definition nap_state :: "u32 \<Rightarrow> cpuidle_state \<Rightarrow> cpuidle_state" where
  "nap_state latency_ns s =
     s\<lparr>name := ''Nap'', desc := ''Nap'', flags := {CPUIDLE_FLAG_TIME_VALID},
       exit_latency := latency_ns div 1000, target_residency := latency_ns div 100,
       enter := Some Addr_nap_loop\<rparr>"

definition fastsleep_state :: "u32 \<Rightarrow> cpuidle_state \<Rightarrow> cpuidle_state" where
  "fastsleep_state latency_ns s =
     s\<lparr>name := ''FastSleep'', desc := ''FastSleep'',
       flags := {CPUIDLE_FLAG_TIME_VALID, CPUIDLE_FLAG_TIMER_STOP},
       exit_latency := latency_ns div 1000, target_residency := latency_ns div 100,
       enter := Some Addr_fastsleep_loop\<rparr>"

definition store_state ::
  "(cpuidle_state \<Rightarrow> cpuidle_state) \<Rightarrow> cpuidle_state list \<times> nat
     \<Rightarrow> fault + cpuidle_state list \<times> nat" where
  "store_state upd st =
     (case st of (tbl, nr) \<Rightarrow>
        if nr < length tbl then Inr (tbl[nr := upd (tbl ! nr)], nr + 1)
        else Inl (Powernv_states_out_of_bounds nr))"

function add_idle_states_loop ::
  "u8 list \<Rightarrow> u8 list \<Rightarrow> nat \<Rightarrow> nat \<Rightarrow> cpuidle_state list \<times> nat
     \<Rightarrow> fault + cpuidle_state list \<times> nat" where
  "add_idle_states_loop idle_state_flags idle_state_latency dt_idle_states i st =
     (if i < dt_idle_states then
        (case be32_to_cpu_cell idle_state_flags i of
           Inl f \<Rightarrow> Inl f
         | Inr flags_i \<Rightarrow>
            (case be32_to_cpu_cell idle_state_latency i of
               Inl f \<Rightarrow> Inl f
             | Inr latency_ns \<Rightarrow>
                (case (if flags_i AND IDLE_USE_INST_NAP \<noteq> 0
                       then store_state (nap_state latency_ns) st else Inr st) of
                   Inl f \<Rightarrow> Inl f
                 | Inr st1 \<Rightarrow>
                    (case (if flags_i AND IDLE_USE_INST_SLEEP \<noteq> 0
                           then store_state (fastsleep_state latency_ns) st1 else Inr st1) of
                       Inl f \<Rightarrow> Inl f
                     | Inr st2 \<Rightarrow>
                         add_idle_states_loop idle_state_flags idle_state_latency
                           dt_idle_states (i + 1) st2))))
      else Inr st)"
  by pat_completeness auto
termination
  by (relation "measure (\<lambda>(fl, lat, n, i, st). n - i)") auto

text \<open>
  The result of the probe: the value it returns, the table it leaves in
  \<open>powernv_states\<close>, and the lines it wrote with \<open>pr_warn\<close>.
\<close>

record probe_result =
  nr_idle_states :: nat
  states_table :: "cpuidle_state list"
  pr_warn :: "string list"

definition powernv_add_idle_states ::
  "device_tree \<Rightarrow> cpuidle_state list \<Rightarrow> fault + probe_result" where
  "powernv_add_idle_states dt tbl =
     (let nr = 1 in
      case of_find_node_by_path dt ''/ibm,opal/power-mgt'' of
        None \<Rightarrow>
          Inr \<lparr>nr_idle_states = nr, states_table = tbl,
               pr_warn = [''opal: PowerMgmt Node not found'' @ [CHR 0x0A]]\<rparr>
      | Some power_mgt \<Rightarrow>
         (case of_get_property power_mgt ''ibm,cpu-idle-state-flags'' of
            None \<Rightarrow>
              Inr \<lparr>nr_idle_states = nr, states_table = tbl,
                   pr_warn = [''DT-PowerMgmt: missing ibm,cpu-idle-state-flags'' @ [CHR 0x0A]]\<rparr>
          | Some (idle_state_flags, len_flags) \<Rightarrow>
             (case of_get_property power_mgt ''ibm,cpu-idle-state-latencies-ns'' of
                None \<Rightarrow>
                  Inr \<lparr>nr_idle_states = nr, states_table = tbl,
                       pr_warn = [''DT-PowerMgmt: missing ibm,cpu-idle-state-latencies-ns'' @ [CHR 0x0A]]\<rparr>
              | Some (idle_state_latency, len_latency) \<Rightarrow>
                 (let dt_idle_states = len_flags div 4 in
                  case add_idle_states_loop idle_state_flags idle_state_latency
                         dt_idle_states 0 (tbl, nr) of
                    Inl f \<Rightarrow> Inl f
                  | Inr (tbl', nr') \<Rightarrow>
                      Inr \<lparr>nr_idle_states = nr', states_table = tbl', pr_warn = []\<rparr>))))"

subsection \<open>Notions the statements use\<close>

text \<open>
  A table entry is enabled for a device when neither the driver's \<open>disabled\<close> flag of
  the state nor the device's \<open>disable\<close> flag of its usage record is set.
  \<open>first_enabled_after dev drv index\<close> is the first enabled state at a position greater
  than \<open>index\<close> and below \<open>state_count\<close>, in table order.
\<close>

definition state_enabled :: "cpuidle_state \<times> cpuidle_state_usage \<Rightarrow> bool" where
  "state_enabled x = (\<not> disabled (fst x) \<and> \<not> disable (snd x))"

definition first_enabled_after ::
  "cpuidle_device \<Rightarrow> cpuidle_driver \<Rightarrow> int \<Rightarrow> cpuidle_state option" where
  "first_enabled_after dev drv index =
     map_option fst
       (find state_enabled
          (drop (nat (index + 1))
             (take (nat (state_count drv)) (zip (states drv) (states_usage dev)))))"

text \<open>
  \<open>capabilities f\<close> counts the capabilities the probe recognizes in a flag word: the
  nap bit and the sleep bit, each on its own. \<open>state_slot fl i\<close> is the value of
  \<open>nr_idle_states\<close> when iteration \<open>i\<close> of the loop starts, that is the slot the first
  state of flag word \<open>i\<close> is stored in, and \<open>recognized_latencies\<close> lists, in array
  order, the latency cells of the flag words with a recognized capability.
\<close>

definition capabilities :: "u32 \<Rightarrow> nat" where
  "capabilities f =
     (if f AND IDLE_USE_INST_NAP \<noteq> 0 then 1 else 0)
     + (if f AND IDLE_USE_INST_SLEEP \<noteq> 0 then 1 else 0)"

definition state_slot :: "u8 list \<Rightarrow> nat \<Rightarrow> nat" where
  "state_slot fl i = 1 + sum_list (map (\<lambda>j. capabilities (be32_value fl j)) [0..<i])"

definition recognized_latencies :: "u8 list \<Rightarrow> u8 list \<Rightarrow> u32 list" where
  "recognized_latencies fl lat =
     map (be32_value lat)
       (filter (\<lambda>j. capabilities (be32_value fl j) \<noteq> 0) [0..<length fl div 4])"

text \<open>
  The stores of the loop, as a list: \<open>new_states f l\<close> are the field updates one
  iteration performs, \<open>dt_updates\<close> those of iterations \<open>i\<close> up to \<open>n\<close>, and
  \<open>store_all\<close> applies a list of updates to consecutive slots.
\<close>

definition new_states :: "u32 \<Rightarrow> u32 \<Rightarrow> (cpuidle_state \<Rightarrow> cpuidle_state) list" where
  "new_states f l =
     (if f AND IDLE_USE_INST_NAP \<noteq> 0 then [nap_state l] else [])
     @ (if f AND IDLE_USE_INST_SLEEP \<noteq> 0 then [fastsleep_state l] else [])"

definition dt_updates ::
  "u8 list \<Rightarrow> u8 list \<Rightarrow> nat \<Rightarrow> nat \<Rightarrow> (cpuidle_state \<Rightarrow> cpuidle_state) list" where
  "dt_updates fl lat i n =
     concat (map (\<lambda>j. new_states (be32_value fl j) (be32_value lat j)) [i..<n])"

fun store_all ::
  "(cpuidle_state \<Rightarrow> cpuidle_state) list \<Rightarrow> cpuidle_state list \<Rightarrow> nat \<Rightarrow> cpuidle_state list" where
  "store_all [] tbl nr = tbl"
| "store_all (u # us) tbl nr = store_all us (tbl[nr := u (tbl ! nr)]) (Suc nr)"

definition fastsleep_slot :: "u8 list \<Rightarrow> nat \<Rightarrow> nat" where
  "fastsleep_slot fl i =
     state_slot fl i + (if be32_value fl i AND IDLE_USE_INST_NAP \<noteq> 0 then 1 else 0)"

definition dt_latencies :: "u8 list \<Rightarrow> u8 list \<Rightarrow> nat \<Rightarrow> u32 list" where
  "dt_latencies fl lat n =
     concat (map (\<lambda>j. replicate (capabilities (be32_value fl j)) (be32_value lat j)) [0..<n])"

definition from_latency :: "(cpuidle_state \<Rightarrow> cpuidle_state) \<Rightarrow> u32 \<Rightarrow> bool" where
  "from_latency u l =
     (\<forall>s. exit_latency (u s) = l div 1000 \<and> target_residency (u s) = l div 100)"

subsection \<open>Concrete configurations\<close>

text \<open>
  Device trees are written from their cells: \<open>be32_array\<close> lays 32-bit values out as
  the bytes of a property, most significant byte first, and \<open>power_mgt_tree fl lat\<close>
  is the tree whose \<open>/ibm,opal/power-mgt\<close> node has the two properties the probe reads.
\<close>

definition cpu_to_be32 :: "u32 \<Rightarrow> u8 list" where
  "cpu_to_be32 w = [ucast (drop_bit 24 w), ucast (drop_bit 16 w), ucast (drop_bit 8 w), ucast w]"

definition be32_array :: "u32 list \<Rightarrow> u8 list" where
  "be32_array ws = concat (map cpu_to_be32 ws)"

definition power_mgt_tree :: "u8 list \<Rightarrow> u8 list \<Rightarrow> device_tree" where
  "power_mgt_tree fl lat =
     [''/ibm,opal/power-mgt'' \<mapsto>
        [''ibm,cpu-idle-state-flags'' \<mapsto> fl, ''ibm,cpu-idle-state-latencies-ns'' \<mapsto> lat]]"

text \<open>
  A POWER7 thread with the LPCR masks of \<open>asm/reg.h\<close>, a time base of 512 ticks per
  microsecond, a sleep that clobbers the LPCR, and work that becomes pending at the
  third poll.
\<close>

definition power7_platform :: platform where
  "power7_platform =
     \<lparr>LPCR_MER = 0x800, LPCR_PECE = 0x7000, LPCR_PECE0 = 0x4000, SYSTEM_RUNNING = 1,
      power7_idle_hw = (\<lambda>m. m\<lparr>tb := tb m + 512000\<rparr>),
      power7_sleep_hw = (\<lambda>m. m\<lparr>SPRN_LPCR := 0, tb := tb m + 5120000\<rparr>),
      need_resched_at = (\<lambda>k. 2 \<le> k)\<rparr>"

definition booting_machine :: machine where
  "booting_machine =
     \<lparr>SPRN_LPCR = 0x7800, system_state = 0, irq_enabled = False,
      TIF_POLLING_NRFLAG = False, runlatch = True, hmt = Prio_medium, tb = 1000,
      snooze_exit_time = 0, hw_trace = []\<rparr>"

definition running_machine :: machine where
  "running_machine = booting_machine\<lparr>system_state := 1\<rparr>"

definition power7_globals :: snooze_globals where
  "power7_globals =
     \<lparr>default_snooze_timeout = 5120000, snooze_timeout_en = True, tb_ticks_per_usec = 512\<rparr>"

definition nap_driver :: cpuidle_driver where
  "nap_driver = \<lparr>states = powernv_states, state_count = 2\<rparr>"

definition idle_device :: cpuidle_device where
  "idle_device = \<lparr>enabled = True, states_usage = replicate 8 \<lparr>disable = False\<rparr>\<rparr>"

definition linux_cpuidle_api :: cpuidle_api where
  "linux_cpuidle_api =
     \<lparr>CPU_ONLINE = 0x2, CPU_ONLINE_FROZEN = 0x12, CPU_DEAD = 0x7, CPU_DEAD_FROZEN = 0x17,
      cpuidle_enable_device = (\<lambda>d. d\<lparr>enabled := True\<rparr>),
      cpuidle_disable_device = (\<lambda>d. d\<lparr>enabled := False\<rparr>)\<rparr>"

definition two_cpu_core :: cpuidle_core where
  "two_cpu_core =
     \<lparr>cpuidle_devices = [0 \<mapsto> idle_device, 1 \<mapsto> idle_device\<lparr>enabled := False\<rparr>],
      cpuidle_curr_driver = Some nap_driver, lock_trace = []\<rparr>"

declare snooze_scan.simps [simp del]
declare add_idle_states_loop.simps [simp del]

section \<open>Properties of the entry routines\<close>

text \<open>
  Claim C3. Entering and leaving fast sleep is a round trip on the LPCR: whatever value
  the register holds before \<open>fastsleep_loop\<close> is called, whatever the masks are and
  whatever the hardware does to the thread while it sleeps, the register holds the same
  value when the routine has returned. This covers both the guarded early return and
  the path through \<open>power7_sleep\<close>.
\<close>

theorem fastsleep_loop_lpcr_round_trip:
  "SPRN_LPCR (snd (fastsleep_loop p m index)) = SPRN_LPCR m"
  by (simp add: fastsleep_loop_def Let_def mtspr_LPCR_def mfspr_LPCR_def)

text \<open>
  Claim C4. Below \<open>SYSTEM_RUNNING\<close> the routine is a no-op: it returns the index it was
  given and leaves the thread exactly as it found it. In particular the LPCR and the
  trace are unchanged, so no \<open>mtspr\<close> to the LPCR and no \<open>power7_sleep\<close> was executed.
\<close>

theorem fastsleep_loop_before_running:
  "system_state m < SYSTEM_RUNNING p \<Longrightarrow>
   fastsleep_loop p m index = (index, m) \<and>
   SPRN_LPCR (snd (fastsleep_loop p m index)) = SPRN_LPCR m \<and>
   hw_trace (snd (fastsleep_loop p m index)) = hw_trace m"
  by (simp add: fastsleep_loop_def Let_def)

theorem fastsleep_loop_before_running_witness:
  "fastsleep_loop power7_platform booting_machine 2 = (2, booting_machine) \<and>
   hw_trace (snd (fastsleep_loop power7_platform booting_machine 2)) = []"
proof -
  have "system_state booting_machine < SYSTEM_RUNNING power7_platform"
    by (simp add: booting_machine_def power7_platform_def)
  from fastsleep_loop_before_running [OF this, of 2]
  show ?thesis by (simp add: booting_machine_def)
qed

text \<open>The polling loop returns once \<open>need_resched()\<close> is seen to hold.\<close>

lemma snooze_poll_returns:
  "need_resched_at p (k + d) \<Longrightarrow> \<exists>m'. snooze_poll p k m = Some m'"
proof (induction d arbitrary: k m)
  case 0
  then show ?case by (subst snooze_poll.simps) simp
next
  case (Suc d)
  from Suc.prems have "need_resched_at p (Suc k + d)" by simp
  from Suc.IH [OF this]
  obtain m' where "snooze_poll p (Suc k) (HMT_very_low (HMT_low m)) = Some m'"
    by blast
  then show ?case by (subst snooze_poll.simps) simp
qed

lemma snooze_loop_result_index:
  "snooze_loop p g dev drv m index = Some (Inr (r, m')) \<Longrightarrow> r = index"
  by (auto simp: snooze_loop_def Let_def split: sum.splits option.splits)

lemma snooze_loop_returns:
  assumes "need_resched_at p k" and "get_snooze_timeout g dev drv index = Inr t"
  shows "\<exists>m'. snooze_loop p g dev drv m index = Some (Inr (index, m'))"
proof -
  let ?m2 = "set_thread_flag_POLLING_NRFLAG (local_irq_enable m)"
  from assms(1) have "need_resched_at p (0 + k)" by simp
  from snooze_poll_returns [OF this]
  obtain m5 where
    "snooze_poll p 0 (ppc64_runlatch_off (?m2\<lparr>snooze_exit_time := get_tb ?m2 + t\<rparr>)) = Some m5"
    by blast
  with assms(2) show ?thesis by (simp add: snooze_loop_def Let_def)
qed

lemma power7_timeout_example:
  "get_snooze_timeout power7_globals idle_device nap_driver 0 = Inr 51200"
  by code_simp

text \<open>
  Claim C8. Each entry routine returns the index it was given. \<open>nap_loop\<close> and
  \<open>fastsleep_loop\<close> always return, with that index, on the guarded path of
  \<open>fastsleep_loop\<close> too. \<open>snooze_loop\<close> polls until work is pending: whenever it
  returns, it returns that index, and it does return as soon as some poll sees
  \<open>need_resched()\<close> hold (the timeout computation having read inside the tables).
\<close>

theorem entry_routines_return_index:
  "fst (nap_loop p m index) = index \<and>
   fst (fastsleep_loop p m index) = index \<and>
   (\<forall>r m'. snooze_loop p g dev drv m index = Some (Inr (r, m')) \<longrightarrow> r = index) \<and>
   (\<forall>k t. need_resched_at p k \<and> get_snooze_timeout g dev drv index = Inr t \<longrightarrow>
      (\<exists>m'. snooze_loop p g dev drv m index = Some (Inr (index, m'))))"
proof -
  have "fst (nap_loop p m index) = index"
    by (simp add: nap_loop_def Let_def)
  moreover have "fst (fastsleep_loop p m index) = index"
    by (simp add: fastsleep_loop_def Let_def)
  moreover have "\<forall>r m'. snooze_loop p g dev drv m index = Some (Inr (r, m')) \<longrightarrow> r = index"
    using snooze_loop_result_index by blast
  moreover have "\<forall>k t. need_resched_at p k \<and> get_snooze_timeout g dev drv index = Inr t \<longrightarrow>
      (\<exists>m'. snooze_loop p g dev drv m index = Some (Inr (index, m')))"
    using snooze_loop_returns by blast
  ultimately show ?thesis by blast
qed

theorem entry_routines_return_index_witness:
  "fst (nap_loop power7_platform running_machine 1) = 1 \<and>
   fst (fastsleep_loop power7_platform running_machine 2) = 2 \<and>
   (\<exists>m'. snooze_loop power7_platform power7_globals idle_device nap_driver
            running_machine 0 = Some (Inr (0, m')))"
proof -
  have pending: "need_resched_at power7_platform 2"
    by (simp add: power7_platform_def)
  note nap = entry_routines_return_index
    [of power7_platform running_machine 1 power7_globals idle_device nap_driver]
  note fast = entry_routines_return_index
    [of power7_platform running_machine 2 power7_globals idle_device nap_driver]
  note snooze = entry_routines_return_index
    [of power7_platform running_machine 0 power7_globals idle_device nap_driver]
  from snooze pending power7_timeout_example
  have "\<exists>m'. snooze_loop power7_platform power7_globals idle_device nap_driver
            running_machine 0 = Some (Inr (0, m'))"
    by blast
  with nap fast show ?thesis by blast
qed

section \<open>The hotplug notifier\<close>

text \<open>
  Claim C9. An action other than \<open>CPU_ONLINE\<close>, \<open>CPU_ONLINE_FROZEN\<close>, \<open>CPU_DEAD\<close> and
  \<open>CPU_DEAD_FROZEN\<close> changes nothing in the cpuidle core: no device is enabled or
  disabled and the lock is not taken. The notifier answers \<open>NOTIFY_DONE\<close> when the CPU
  has a device and a driver is registered and \<open>NOTIFY_OK\<close> otherwise, never
  \<open>NOTIFY_BAD\<close>.
\<close>

theorem notifier_other_action_is_noop:
  "action \<notin> {CPU_ONLINE k, CPU_ONLINE_FROZEN k, CPU_DEAD k, CPU_DEAD_FROZEN k} \<Longrightarrow>
   powernv_cpuidle_add_cpu_notifier k c action hcpu =
     (if cpuidle_devices c (sint (ucast hcpu :: u32)) \<noteq> None \<and> cpuidle_get_driver c \<noteq> None
      then NOTIFY_DONE else NOTIFY_OK, c) \<and>
   fst (powernv_cpuidle_add_cpu_notifier k c action hcpu) \<noteq> NOTIFY_BAD"
  by (auto simp: powernv_cpuidle_add_cpu_notifier_def Let_def split: option.splits)

theorem notifier_other_action_is_noop_witness:
  "powernv_cpuidle_add_cpu_notifier linux_cpuidle_api two_cpu_core 3 1 =
     (NOTIFY_DONE, two_cpu_core)"
proof -
  have "(3 :: u64) \<notin> {CPU_ONLINE linux_cpuidle_api, CPU_ONLINE_FROZEN linux_cpuidle_api,
          CPU_DEAD linux_cpuidle_api, CPU_DEAD_FROZEN linux_cpuidle_api}"
    by (simp add: linux_cpuidle_api_def)
  from notifier_other_action_is_noop [OF this, of two_cpu_core 1]
  show ?thesis by (simp add: two_cpu_core_def cpuidle_get_driver_def)
qed

section \<open>The snooze timeout\<close>

lemma state_enabled_pair: "state_enabled (s, su) = (\<not> disabled s \<and> \<not> disable su)"
  by (simp add: state_enabled_def)

lemma snooze_scan_find:
  "0 \<le> i \<Longrightarrow> state_count drv \<le> int (length (states drv)) \<Longrightarrow>
   state_count drv \<le> int (length (states_usage dev)) \<Longrightarrow>
   snooze_scan dev drv g i =
     Inr (case find state_enabled
                 (drop (nat i)
                    (take (nat (state_count drv)) (zip (states drv) (states_usage dev)))) of
            None \<Rightarrow> default_snooze_timeout g
          | Some x \<Rightarrow> ucast (target_residency (fst x)) * tb_ticks_per_usec g)"
proof (induction dev drv g i rule: snooze_scan.induct)
  case (1 dev drv g i)
  let ?zs = "take (nat (state_count drv)) (zip (states drv) (states_usage dev))"
  let ?rest = "Inr (case find state_enabled (drop (nat (i + 1)) ?zs) of
            None \<Rightarrow> default_snooze_timeout g
          | Some x \<Rightarrow> ucast (target_residency (fst x)) * tb_ticks_per_usec g)"
  show ?case
  proof (cases "i < state_count drv")
    case False
    then have "drop (nat i) ?zs = []" by simp
    with False show ?thesis by (subst snooze_scan.simps) simp
  next
    case True
    with "1.prems" have len: "nat i < length ?zs" by (simp add: nat_less_iff)
    have "nat (i + 1) = Suc (nat i)"
      using "1.prems"(1) by simp
    with Cons_nth_drop_Suc [OF len]
    have split: "drop (nat i) ?zs = ?zs ! nat i # drop (nat (i + 1)) ?zs"
      by simp
    have nth: "?zs ! nat i = (states drv ! nat i, states_usage dev ! nat i)"
      using len by simp
    have inb: "\<not> (i < 0 \<or> int (length (states drv)) \<le> i)"
      "\<not> int (length (states_usage dev)) \<le> i"
      using True "1.prems" by auto
    show ?thesis
    proof (cases "disabled (states drv ! nat i)")
      case d: True
      have "snooze_scan dev drv g i = snooze_scan dev drv g (i + 1)"
        using True inb d by (subst snooze_scan.simps) simp
      also have "\<dots> = ?rest"
        using "1.IH"(1) [OF True _ refl d] inb "1.prems" by simp
      finally show ?thesis using d by (simp add: split nth state_enabled_pair)
    next
      case nd: False
      show ?thesis
      proof (cases "disable (states_usage dev ! nat i)")
        case d: True
        have "snooze_scan dev drv g i = snooze_scan dev drv g (i + 1)"
          using True inb d nd by (subst snooze_scan.simps) simp
        also have "\<dots> = ?rest"
          using "1.IH"(2) [OF True _ refl nd _ refl d] inb "1.prems" by simp
        finally show ?thesis using d by (simp add: split nth state_enabled_pair)
      next
        case False
        then show ?thesis using True inb nd
          by (subst snooze_scan.simps) (simp add: split nth state_enabled_pair)
      qed
    qed
  qed
qed

text \<open>
  Claim C5, as the code has it. For an index from \<open>-1\<close> up to, but not including,
  \<open>INT_MAX\<close>, and a \<open>state_count\<close> within both arrays: with \<open>snooze_timeout_en\<close> set,
  \<open>get_snooze_timeout\<close> returns the \<open>target_residency\<close> of the first enabled state after
  \<open>index\<close> multiplied by \<open>tb_ticks_per_usec\<close> (a number of time base ticks, modulo
  \<open>2^64\<close>), and \<open>default_snooze_timeout\<close> when no state after \<open>index\<close> is enabled; with
  \<open>snooze_timeout_en\<close> clear it returns \<open>default_snooze_timeout\<close> whatever the table holds.
\<close>

theorem get_snooze_timeout_first_enabled:
  assumes "- 1 \<le> index" and "index < 2147483647"
    and "state_count drv \<le> int (length (states drv))"
    and "state_count drv \<le> int (length (states_usage dev))"
  shows "get_snooze_timeout g dev drv index =
           Inr (if snooze_timeout_en g
                then (case first_enabled_after dev drv index of
                        None \<Rightarrow> default_snooze_timeout g
                      | Some s \<Rightarrow> ucast (target_residency s) * tb_ticks_per_usec g)
                else default_snooze_timeout g)"
proof (cases "snooze_timeout_en g")
  case False
  then show ?thesis by (simp add: get_snooze_timeout_def)
next
  case True
  from assms(1) have "0 \<le> index + 1" by simp
  from snooze_scan_find [OF this assms(3,4), of g] True assms(2)
  show ?thesis
    by (simp add: get_snooze_timeout_def first_enabled_after_def split: option.splits)
qed

lemma nap_driver_first_enabled:
  "first_enabled_after idle_device nap_driver 0 = Some (powernv_states ! 1)"
  by code_simp

theorem get_snooze_timeout_first_enabled_witness:
  "get_snooze_timeout power7_globals idle_device nap_driver 0 = Inr 51200"
proof -
  have idx: "- 1 \<le> (0 :: int)" "(0 :: int) < 2147483647"
    by simp_all
  have cnt: "state_count nap_driver \<le> int (length (states nap_driver))"
    "state_count nap_driver \<le> int (length (states_usage idle_device))"
    by code_simp+
  have en: "snooze_timeout_en power7_globals"
    by (simp add: power7_globals_def)
  have ticks: "ucast (target_residency (powernv_states ! 1)) * tb_ticks_per_usec power7_globals
      = (51200 :: u64)"
    by code_simp
  have "get_snooze_timeout power7_globals idle_device nap_driver 0 =
      Inr (ucast (target_residency (powernv_states ! 1)) * tb_ticks_per_usec power7_globals)"
    using get_snooze_timeout_first_enabled [OF idx cnt, of power7_globals]
    by (simp only: en nap_driver_first_enabled if_True option.case)
  then show ?thesis by (simp only: ticks)
qed

text \<open>
  The claim as the specification words it, that the result is the \<open>target_residency\<close>
  in microseconds itself, fails on the table with a nap state of residency 100 at a
  time base of 512 ticks per microsecond: the routine returns 51200.
\<close>

theorem get_snooze_timeout_not_residency:
  "first_enabled_after idle_device nap_driver 0 = Some (powernv_states ! 1) \<and>
   target_residency (powernv_states ! 1) = 100 \<and>
   get_snooze_timeout power7_globals idle_device nap_driver 0 = Inr 51200 \<and>
   get_snooze_timeout power7_globals idle_device nap_driver 0 \<noteq>
     Inr (ucast (target_residency (powernv_states ! 1)))"
proof -
  have "target_residency (powernv_states ! 1) = 100"
    by code_simp
  with nap_driver_first_enabled power7_timeout_example show ?thesis
    by simp
qed

section \<open>The capability probe\<close>

subsection \<open>Property cells\<close>

text \<open>Reading cell \<open>i\<close> of an array laid out by \<open>be32_array\<close> gives back its \<open>i\<close>-th value.\<close>

lemma be32_value_cpu_to_be32: "be32_value (cpu_to_be32 w) 0 = w"
  unfolding be32_value_def cpu_to_be32_def
  apply simp
  apply (rule bit_word_eqI)
  subgoal for n
    by (cases "n < 8"; cases "n < 16"; cases "n < 24") (auto simp: bit_simps)
  done

lemma length_be32_array: "length (be32_array ws) = 4 * length ws"
  by (induction ws) (simp_all add: be32_array_def cpu_to_be32_def)

lemma be32_value_Cons: "be32_value (cpu_to_be32 w @ bs) (Suc i) = be32_value bs i"
  by (simp add: be32_value_def cpu_to_be32_def nth_Cons' add.commute)

lemma be32_value_head: "be32_value (cpu_to_be32 w @ bs) 0 = w"
  using be32_value_cpu_to_be32 [of w] by (simp add: be32_value_def cpu_to_be32_def)

lemma be32_value_array: "i < length ws \<Longrightarrow> be32_value (be32_array ws) i = ws ! i"
proof (induction ws arbitrary: i)
  case Nil
  then show ?case by simp
next
  case (Cons w ws)
  have unfold: "be32_array (w # ws) = cpu_to_be32 w @ be32_array ws"
    by (simp add: be32_array_def)
  show ?case
  proof (cases i)
    case 0
    then show ?thesis by (simp add: unfold be32_value_head)
  next
    case (Suc j)
    with Cons show ?thesis by (simp add: unfold be32_value_Cons)
  qed
qed

subsection \<open>The loop as a list of stores\<close>

lemma length_store_all [simp]: "length (store_all us tbl nr) = length tbl"
  by (induction us arbitrary: tbl nr) auto

lemma store_all_append:
  "store_all (us @ vs) tbl nr = store_all vs (store_all us tbl nr) (nr + length us)"
  by (induction us arbitrary: tbl nr) auto

lemma store_all_below: "k < nr \<Longrightarrow> store_all us tbl nr ! k = tbl ! k"
  by (induction us arbitrary: tbl nr) auto

lemma store_all_nth:
  "j < length us \<Longrightarrow> nr + j < length tbl \<Longrightarrow>
   store_all us tbl nr ! (nr + j) = (us ! j) (tbl ! (nr + j))"
proof (induction us arbitrary: tbl nr j)
  case Nil
  then show ?case by simp
next
  case (Cons u us)
  show ?case
  proof (cases j)
    case 0
    with Cons.prems show ?thesis by (simp add: store_all_below)
  next
    case (Suc j')
    with Cons.prems have "j' < length us" "Suc nr + j' < length (tbl[nr := u (tbl ! nr)])"
      by simp_all
    from Cons.IH [OF this] Suc show ?thesis by simp
  qed
qed

lemma length_new_states: "length (new_states f l) = capabilities f"
  by (simp add: new_states_def capabilities_def)

lemma loop_body_stores:
  assumes "nr + length (new_states f l) \<le> length tbl"
  shows "(case (if f AND IDLE_USE_INST_NAP \<noteq> 0
                then store_state (nap_state l) (tbl, nr) else Inr (tbl, nr)) of
            Inl e \<Rightarrow> Inl e
          | Inr st1 \<Rightarrow>
             (case (if f AND IDLE_USE_INST_SLEEP \<noteq> 0
                    then store_state (fastsleep_state l) st1 else Inr st1) of
                Inl e \<Rightarrow> Inl e
              | Inr st2 \<Rightarrow> k st2))
         = k (store_all (new_states f l) tbl nr, nr + length (new_states f l))"
  using assms by (auto simp: new_states_def store_state_def)

lemma dt_updates_step:
  "i < n \<Longrightarrow> dt_updates fl lat i n =
     new_states (be32_value fl i) (be32_value lat i) @ dt_updates fl lat (Suc i) n"
  by (simp add: dt_updates_def upt_conv_Cons)

lemma dt_updates_split:
  assumes "i < n"
  shows "dt_updates fl lat 0 n =
     dt_updates fl lat 0 i @ new_states (be32_value fl i) (be32_value lat i)
       @ dt_updates fl lat (Suc i) n"
proof -
  have "[0..<i + (n - i)] = [0..<i] @ [i..<i + (n - i)]"
    by (rule upt_add_eq_append) simp
  with assms have "[0..<n] = [0..<i] @ i # [Suc i..<n]"
    by (simp add: upt_conv_Cons)
  then show ?thesis by (simp add: dt_updates_def)
qed

lemma length_dt_updates:
  "length (dt_updates fl lat 0 i) = sum_list (map (\<lambda>j. capabilities (be32_value fl j)) [0..<i])"
  by (induction i) (simp_all add: dt_updates_def length_new_states)

lemma state_slot_updates: "state_slot fl i = 1 + length (dt_updates fl lat 0 i)"
  by (simp add: state_slot_def length_dt_updates)

text \<open>
  As long as every latency cell read lies inside its property and the states fit the
  table, the loop returns the table with the stores applied from slot \<open>nr\<close> on.
\<close>

lemma add_idle_states_loop_stores:
  "i \<le> n \<Longrightarrow> 4 * n \<le> length fl \<Longrightarrow> 4 * n \<le> length lat \<Longrightarrow>
   nr + length (dt_updates fl lat i n) \<le> length tbl \<Longrightarrow>
   add_idle_states_loop fl lat n i (tbl, nr) =
     Inr (store_all (dt_updates fl lat i n) tbl nr, nr + length (dt_updates fl lat i n))"
proof (induction "n - i" arbitrary: i tbl nr)
  case 0
  then have "i = n" by simp
  then show ?case
    by (subst add_idle_states_loop.simps) (simp add: dt_updates_def)
next
  case (Suc d)
  then have lt: "i < n" by simp
  let ?f = "be32_value fl i" and ?l = "be32_value lat i"
  let ?new = "new_states ?f ?l"
  have cells: "be32_to_cpu_cell fl i = Inr ?f" "be32_to_cpu_cell lat i = Inr ?l"
    using lt Suc.prems by (simp_all add: be32_to_cpu_cell_def)
  have step: "dt_updates fl lat i n = ?new @ dt_updates fl lat (Suc i) n"
    using lt by (rule dt_updates_step)
  have fits: "nr + length ?new \<le> length tbl"
    using Suc.prems(4) by (simp add: step)
  have "add_idle_states_loop fl lat n i (tbl, nr) =
      add_idle_states_loop fl lat n (i + 1) (store_all ?new tbl nr, nr + length ?new)"
    using lt cells
    by (subst add_idle_states_loop.simps) (simp add: loop_body_stores [OF fits])
  also have "\<dots> = Inr (store_all (dt_updates fl lat (Suc i) n) (store_all ?new tbl nr)
                          (nr + length ?new),
                        nr + length ?new + length (dt_updates fl lat (Suc i) n))"
    using Suc.hyps(1) [of "Suc i" "nr + length ?new" "store_all ?new tbl nr"]
      Suc.hyps(2) lt Suc.prems
    by (simp add: step)
  finally show ?case
    by (simp add: step store_all_append)
qed

lemma probe_result:
  assumes node: "of_find_node_by_path dt ''/ibm,opal/power-mgt'' = Some np"
    and fl: "np ''ibm,cpu-idle-state-flags'' = Some fl"
    and lat: "np ''ibm,cpu-idle-state-latencies-ns'' = Some lat"
    and len: "length fl div 4 \<le> length lat div 4"
    and fits: "state_slot fl (length fl div 4) \<le> length tbl"
  shows "powernv_add_idle_states dt tbl =
     Inr \<lparr>nr_idle_states = state_slot fl (length fl div 4),
          states_table = store_all (dt_updates fl lat 0 (length fl div 4)) tbl 1,
          pr_warn = []\<rparr>"
proof -
  let ?n = "length fl div 4"
  have slot: "state_slot fl ?n = 1 + length (dt_updates fl lat 0 ?n)"
    by (rule state_slot_updates)
  have "add_idle_states_loop fl lat ?n 0 (tbl, 1) =
      Inr (store_all (dt_updates fl lat 0 ?n) tbl 1, 1 + length (dt_updates fl lat 0 ?n))"
    using len fits by (intro add_idle_states_loop_stores) (simp_all add: slot)
  then show ?thesis
    using node fl lat by (simp add: powernv_add_idle_states_def of_get_property_def slot)
qed

lemma length_powernv_states: "length powernv_states = MAX_POWERNV_IDLE_STATES"
  by (simp add: powernv_states_def MAX_POWERNV_IDLE_STATES_def)

lemma probe_returns:
  assumes node: "of_find_node_by_path dt ''/ibm,opal/power-mgt'' = Some np"
    and fl: "np ''ibm,cpu-idle-state-flags'' = Some fl"
    and lat: "np ''ibm,cpu-idle-state-latencies-ns'' = Some lat"
    and len: "length fl div 4 \<le> length lat div 4"
    and fits: "state_slot fl (length fl div 4) \<le> MAX_POWERNV_IDLE_STATES"
  shows "\<exists>r. powernv_add_idle_states dt powernv_states = Inr r"
  using probe_result [OF node fl lat len, of powernv_states] fits
  by (simp add: length_powernv_states)

text \<open>
  When the states do not fit, the loop reaches a store to the index just past the
  table: nothing in it stops or shortens the run before that store.
\<close>

lemma loop_body_overflow:
  assumes "nr \<le> length tbl" "length tbl < nr + length (new_states f l)"
  shows "(case (if f AND IDLE_USE_INST_NAP \<noteq> 0
                then store_state (nap_state l) (tbl, nr) else Inr (tbl, nr)) of
            Inl e \<Rightarrow> Inl e
          | Inr st1 \<Rightarrow>
             (case (if f AND IDLE_USE_INST_SLEEP \<noteq> 0
                    then store_state (fastsleep_state l) st1 else Inr st1) of
                Inl e \<Rightarrow> Inl e
              | Inr st2 \<Rightarrow> k st2))
         = Inl (Powernv_states_out_of_bounds (length tbl))"
  using assms by (auto simp: new_states_def store_state_def split: if_splits)

lemma add_idle_states_loop_overflow:
  "i \<le> n \<Longrightarrow> 4 * n \<le> length fl \<Longrightarrow> 4 * n \<le> length lat \<Longrightarrow> nr \<le> length tbl \<Longrightarrow>
   length tbl < nr + length (dt_updates fl lat i n) \<Longrightarrow>
   add_idle_states_loop fl lat n i (tbl, nr) = Inl (Powernv_states_out_of_bounds (length tbl))"
proof (induction "n - i" arbitrary: i tbl nr)
  case 0
  then show ?case by (simp add: dt_updates_def)
next
  case (Suc d)
  then have lt: "i < n" by simp
  let ?f = "be32_value fl i" and ?l = "be32_value lat i"
  let ?new = "new_states ?f ?l"
  have cells: "be32_to_cpu_cell fl i = Inr ?f" "be32_to_cpu_cell lat i = Inr ?l"
    using lt Suc.prems by (simp_all add: be32_to_cpu_cell_def)
  have step: "dt_updates fl lat i n = ?new @ dt_updates fl lat (Suc i) n"
    using lt by (rule dt_updates_step)
  show ?case
  proof (cases "nr + length ?new \<le> length tbl")
    case True
    have "add_idle_states_loop fl lat n i (tbl, nr) =
        add_idle_states_loop fl lat n (i + 1) (store_all ?new tbl nr, nr + length ?new)"
      using lt cells
      by (subst add_idle_states_loop.simps) (simp add: loop_body_stores [OF True])
    also have "\<dots> = Inl (Powernv_states_out_of_bounds (length tbl))"
      using Suc.hyps(1) [of "Suc i" "nr + length ?new" "store_all ?new tbl nr"]
        Suc.hyps(2) lt Suc.prems True
      by (simp add: step)
    finally show ?thesis .
  next
    case False
    then have over: "length tbl < nr + length ?new" by simp
    show ?thesis
      using lt cells
      by (subst add_idle_states_loop.simps)
         (simp add: loop_body_overflow [OF Suc.prems(4) over])
  qed
qed

lemma probe_overflow:
  assumes node: "of_find_node_by_path dt ''/ibm,opal/power-mgt'' = Some np"
    and fl: "np ''ibm,cpu-idle-state-flags'' = Some fl"
    and lat: "np ''ibm,cpu-idle-state-latencies-ns'' = Some lat"
    and len: "length fl div 4 \<le> length lat div 4"
    and over: "MAX_POWERNV_IDLE_STATES < state_slot fl (length fl div 4)"
  shows "powernv_add_idle_states dt powernv_states =
     Inl (Powernv_states_out_of_bounds MAX_POWERNV_IDLE_STATES)"
proof -
  let ?n = "length fl div 4"
  have "add_idle_states_loop fl lat ?n 0 (powernv_states, 1) =
      Inl (Powernv_states_out_of_bounds (length powernv_states))"
    using len over state_slot_updates [of fl ?n lat]
    by (intro add_idle_states_loop_overflow)
       (simp_all add: length_powernv_states MAX_POWERNV_IDLE_STATES_def)
  then show ?thesis
    using node fl lat
    by (simp add: powernv_add_idle_states_def of_get_property_def length_powernv_states)
qed

text \<open>The state stored for capability \<open>t\<close> of flag word \<open>i\<close>, and its slot.\<close>

lemma probe_slot:
  assumes node: "of_find_node_by_path dt ''/ibm,opal/power-mgt'' = Some np"
    and fl: "np ''ibm,cpu-idle-state-flags'' = Some fl"
    and lat: "np ''ibm,cpu-idle-state-latencies-ns'' = Some lat"
    and len: "length fl div 4 \<le> length lat div 4"
    and fits: "state_slot fl (length fl div 4) \<le> MAX_POWERNV_IDLE_STATES"
    and i: "i < length fl div 4"
    and t: "t < capabilities (be32_value fl i)"
    and r: "powernv_add_idle_states dt powernv_states = Inr r"
  shows "states_table r ! (state_slot fl i + t) =
           (new_states (be32_value fl i) (be32_value lat i) ! t)
             (powernv_states ! (state_slot fl i + t))"
    and "state_slot fl i + t < nr_idle_states r"
proof -
  let ?n = "length fl div 4"
  let ?A = "dt_updates fl lat 0 i"
  let ?N = "new_states (be32_value fl i) (be32_value lat i)"
  let ?B = "dt_updates fl lat (Suc i) ?n"
  have ups: "dt_updates fl lat 0 ?n = ?A @ ?N @ ?B"
    using i by (rule dt_updates_split)
  have tN: "t < length ?N"
    using t by (simp add: length_new_states)
  have res: "r = \<lparr>nr_idle_states = state_slot fl ?n,
          states_table = store_all (dt_updates fl lat 0 ?n) powernv_states 1,
          pr_warn = []\<rparr>"
    using probe_result [OF node fl lat len, of powernv_states] fits r
    by (simp add: length_powernv_states)
  have total: "state_slot fl ?n = 1 + length (?A @ ?N @ ?B)"
    using state_slot_updates [of fl ?n lat] by (simp add: ups)
  have slot: "state_slot fl i + t = 1 + (length ?A + t)"
    using state_slot_updates [of fl i lat] by simp
  have "store_all (?A @ ?N @ ?B) powernv_states 1 ! (1 + (length ?A + t)) =
      ((?A @ ?N @ ?B) ! (length ?A + t)) (powernv_states ! (1 + (length ?A + t)))"
    using tN fits total by (intro store_all_nth) (simp_all add: length_powernv_states)
  moreover have "(?A @ ?N @ ?B) ! (length ?A + t) = ?N ! t"
    using tN by (simp add: nth_append)
  ultimately show "states_table r ! (state_slot fl i + t) =
      (?N ! t) (powernv_states ! (state_slot fl i + t))"
    by (simp add: res ups slot)
  show "state_slot fl i + t < nr_idle_states r"
    using tN by (simp add: res total slot)
qed

lemma nap_fields:
  "enter (nap_state l s) = Some Addr_nap_loop"
  "exit_latency (nap_state l s) = l div 1000"
  "target_residency (nap_state l s) = l div 100"
  by (simp_all add: nap_state_def)

lemma fastsleep_fields:
  "enter (fastsleep_state l s) = Some Addr_fastsleep_loop"
  "exit_latency (fastsleep_state l s) = l div 1000"
  "target_residency (fastsleep_state l s) = l div 100"
  by (simp_all add: fastsleep_state_def)

subsection \<open>The exit latencies of the populated slots\<close>

lemma new_states_from_latency:
  "list_all2 from_latency (new_states f l) (replicate (capabilities f) l)"
  by (simp add: new_states_def capabilities_def from_latency_def nap_state_def
      fastsleep_state_def)

lemma concat_all2:
  "(\<And>j. list_all2 R (A j) (B j)) \<Longrightarrow> list_all2 R (concat (map A js)) (concat (map B js))"
  by (induction js) (simp_all add: list_all2_appendI)

lemma dt_updates_from_latency:
  "list_all2 from_latency (dt_updates fl lat 0 n) (dt_latencies fl lat n)"
  unfolding dt_updates_def dt_latencies_def
  by (rule concat_all2) (rule new_states_from_latency)

lemma sorted_replicated:
  "sorted (map g (filter (\<lambda>j. c j \<noteq> 0) js)) \<Longrightarrow>
   sorted (concat (map (\<lambda>j. replicate (c j) (g j)) js))"
proof (induction js)
  case Nil
  then show ?case by simp
next
  case (Cons j js)
  show ?case
  proof (cases "c j = 0")
    case True
    with Cons show ?thesis by simp
  next
    case False
    with Cons.prems have rest: "sorted (map g (filter (\<lambda>j. c j \<noteq> 0) js))"
      and least: "\<forall>y \<in> set (filter (\<lambda>j. c j \<noteq> 0) js). g j \<le> g y"
      by simp_all
    have "\<forall>y \<in> set (concat (map (\<lambda>j. replicate (c j) (g j)) js)). g j \<le> y"
      using least by auto
    with Cons.IH [OF rest] show ?thesis
      by (auto simp: sorted_append)
  qed
qed

lemma sorted_dt_latencies:
  "sorted (recognized_latencies fl lat) \<Longrightarrow> sorted (dt_latencies fl lat (length fl div 4))"
  unfolding recognized_latencies_def dt_latencies_def by (rule sorted_replicated)

lemma div_1000_mono: "(a :: u32) \<le> b \<Longrightarrow> a div 1000 \<le> b div 1000"
  by (simp add: word_le_nat_alt unat_div div_le_mono)

lemma sorted_exit_latencies:
  assumes "sorted (lats :: u32 list)"
  shows "sorted (0 # map (\<lambda>l. l div 1000) lats)"
proof -
  have "sorted (map (\<lambda>l. l div 1000) lats)"
    using assms by (induction lats) (auto simp: div_1000_mono)
  then show ?thesis by simp
qed

lemma probe_exit_latencies:
  assumes node: "of_find_node_by_path dt ''/ibm,opal/power-mgt'' = Some np"
    and fl: "np ''ibm,cpu-idle-state-flags'' = Some fl"
    and lat: "np ''ibm,cpu-idle-state-latencies-ns'' = Some lat"
    and len: "length fl div 4 \<le> length lat div 4"
    and fits: "state_slot fl (length fl div 4) \<le> MAX_POWERNV_IDLE_STATES"
    and r: "powernv_add_idle_states dt powernv_states = Inr r"
  shows "map exit_latency (take (nr_idle_states r) (states_table r)) =
           0 # map (\<lambda>l. l div 1000) (dt_latencies fl lat (length fl div 4))"
proof (rule nth_equalityI)
  let ?n = "length fl div 4"
  let ?ups = "dt_updates fl lat 0 ?n"
  let ?lats = "dt_latencies fl lat ?n"
  have res: "r = \<lparr>nr_idle_states = state_slot fl ?n,
          states_table = store_all ?ups powernv_states 1, pr_warn = []\<rparr>"
    using probe_result [OF node fl lat len, of powernv_states] fits r
    by (simp add: length_powernv_states)
  have total: "state_slot fl ?n = 1 + length ?ups"
    by (rule state_slot_updates)
  have all2: "list_all2 from_latency ?ups ?lats"
    by (rule dt_updates_from_latency)
  then have same: "length ?lats = length ?ups"
    by (simp add: list_all2_lengthD)
  have room: "1 + length ?ups \<le> length powernv_states"
    using fits total by (simp add: length_powernv_states)
  show "length (map exit_latency (take (nr_idle_states r) (states_table r))) =
      length (0 # map (\<lambda>l. l div 1000) ?lats)"
    using room by (simp add: res total same)
  fix p
  assume "p < length (map exit_latency (take (nr_idle_states r) (states_table r)))"
  then have p: "p < 1 + length ?ups"
    using room by (simp add: res total)
  show "map exit_latency (take (nr_idle_states r) (states_table r)) ! p =
      (0 # map (\<lambda>l. l div 1000) ?lats) ! p"
  proof (cases p)
    case 0
    have "exit_latency (powernv_states ! 0) = 0"
      by (simp add: powernv_states_def)
    with 0 p room show ?thesis
      by (simp add: res total store_all_below)
  next
    case (Suc j)
    with p have j: "j < length ?ups" by simp
    with room have "store_all ?ups powernv_states 1 ! (1 + j) =
        (?ups ! j) (powernv_states ! (1 + j))"
      by (intro store_all_nth) simp_all
    moreover have "from_latency (?ups ! j) (?lats ! j)"
      using all2 j by (rule list_all2_nthD)
    ultimately have "exit_latency (store_all ?ups powernv_states 1 ! Suc j) = ?lats ! j div 1000"
      by (simp add: from_latency_def)
    with Suc p j room show ?thesis
      by (simp add: res total same)
  qed
qed

subsection \<open>What the probe builds\<close>

text \<open>
  Claim C7. When the latency cells lie inside their property and the states fit the
  table, each recognized capability of flag word \<open>i\<close> gets a state derived from latency
  cell \<open>i\<close>: \<open>exit_latency\<close> is the cell divided by 1000 and \<open>target_residency\<close> the
  cell divided by 100, in unsigned 32-bit division. The nap state sits in slot
  \<open>state_slot fl i\<close>, the fast sleep state in the slot after it when the word has both
  bits and in that slot otherwise. For the device tree with the flags \<open>[0x00010000]\<close>
  and the latencies \<open>[10000]\<close> the probe returns 2, and slot 1 holds a nap state with
  exit latency 10 and target residency 100.
\<close>

theorem probe_state_from_latency:
  assumes node: "of_find_node_by_path dt ''/ibm,opal/power-mgt'' = Some np"
    and fl: "np ''ibm,cpu-idle-state-flags'' = Some fl"
    and lat: "np ''ibm,cpu-idle-state-latencies-ns'' = Some lat"
    and len: "length fl div 4 \<le> length lat div 4"
    and fits: "state_slot fl (length fl div 4) \<le> MAX_POWERNV_IDLE_STATES"
    and i: "i < length fl div 4"
  shows "(\<exists>r. powernv_add_idle_states dt powernv_states = Inr r \<and>
      (be32_value fl i AND IDLE_USE_INST_NAP \<noteq> 0 \<longrightarrow>
         state_slot fl i < nr_idle_states r \<and>
         enter (states_table r ! state_slot fl i) = Some Addr_nap_loop \<and>
         exit_latency (states_table r ! state_slot fl i) = be32_value lat i div 1000 \<and>
         target_residency (states_table r ! state_slot fl i) = be32_value lat i div 100) \<and>
      (be32_value fl i AND IDLE_USE_INST_SLEEP \<noteq> 0 \<longrightarrow>
         fastsleep_slot fl i < nr_idle_states r \<and>
         enter (states_table r ! fastsleep_slot fl i) = Some Addr_fastsleep_loop \<and>
         exit_latency (states_table r ! fastsleep_slot fl i) = be32_value lat i div 1000 \<and>
         target_residency (states_table r ! fastsleep_slot fl i) = be32_value lat i div 100))
    \<and> be32_value (be32_array [0x00010000]) 0 = 0x00010000
    \<and> be32_value (be32_array [10000]) 0 = 10000
    \<and> powernv_add_idle_states
        (power_mgt_tree (be32_array [0x00010000]) (be32_array [10000])) powernv_states =
      Inr \<lparr>nr_idle_states = 2,
           states_table = powernv_states
             [1 := \<lparr>name = ''Nap'', desc = ''Nap'', flags = {CPUIDLE_FLAG_TIME_VALID},
                    exit_latency = 10, target_residency = 100, disabled = False,
                    enter = Some Addr_nap_loop\<rparr>],
           pr_warn = []\<rparr>"
proof -
  let ?f = "be32_value fl i" and ?l = "be32_value lat i"
  from probe_returns [OF node fl lat len fits]
  obtain r where r: "powernv_add_idle_states dt powernv_states = Inr r" ..
  note slot = probe_slot [OF node fl lat len fits i _ r]
  have nap: "state_slot fl i < nr_idle_states r \<and>
         enter (states_table r ! state_slot fl i) = Some Addr_nap_loop \<and>
         exit_latency (states_table r ! state_slot fl i) = ?l div 1000 \<and>
         target_residency (states_table r ! state_slot fl i) = ?l div 100"
    if "?f AND IDLE_USE_INST_NAP \<noteq> 0"
  proof -
    from that have "0 < capabilities ?f" "new_states ?f ?l ! 0 = nap_state ?l"
      by (simp_all add: capabilities_def new_states_def)
    with slot [of 0] show ?thesis by (simp add: nap_fields)
  qed
  have sleep: "fastsleep_slot fl i < nr_idle_states r \<and>
         enter (states_table r ! fastsleep_slot fl i) = Some Addr_fastsleep_loop \<and>
         exit_latency (states_table r ! fastsleep_slot fl i) = ?l div 1000 \<and>
         target_residency (states_table r ! fastsleep_slot fl i) = ?l div 100"
    if "?f AND IDLE_USE_INST_SLEEP \<noteq> 0"
  proof -
    let ?t = "if ?f AND IDLE_USE_INST_NAP \<noteq> 0 then 1 else 0 :: nat"
    from that have "?t < capabilities ?f" "new_states ?f ?l ! ?t = fastsleep_state ?l"
      by (simp_all add: capabilities_def new_states_def)
    with slot [of ?t] show ?thesis
      by (simp add: fastsleep_fields fastsleep_slot_def)
  qed
  have cells: "be32_value (be32_array [0x00010000]) 0 = 0x00010000"
    "be32_value (be32_array [10000]) 0 = 10000"
    by code_simp+
  have example: "powernv_add_idle_states
        (power_mgt_tree (be32_array [0x00010000]) (be32_array [10000])) powernv_states =
      Inr \<lparr>nr_idle_states = 2,
           states_table = powernv_states
             [1 := \<lparr>name = ''Nap'', desc = ''Nap'', flags = {CPUIDLE_FLAG_TIME_VALID},
                    exit_latency = 10, target_residency = 100, disabled = False,
                    enter = Some Addr_nap_loop\<rparr>],
           pr_warn = []\<rparr>"
    by code_simp
  from r nap sleep cells example show ?thesis by blast
qed

theorem probe_state_from_latency_witness:
  "\<exists>r. powernv_add_idle_states
          (power_mgt_tree (be32_array [0x00010000, 0x00020000]) (be32_array [10000, 300000]))
          powernv_states = Inr r \<and>
       2 < nr_idle_states r \<and>
       enter (states_table r ! 2) = Some Addr_fastsleep_loop \<and>
       exit_latency (states_table r ! 2) = 300 \<and>
       target_residency (states_table r ! 2) = 3000"
proof -
  let ?fl = "be32_array [0x00010000, 0x00020000]" and ?lat = "be32_array [10000, 300000]"
  let ?np = "[''ibm,cpu-idle-state-flags'' \<mapsto> ?fl, ''ibm,cpu-idle-state-latencies-ns'' \<mapsto> ?lat]"
  have node: "of_find_node_by_path (power_mgt_tree ?fl ?lat) ''/ibm,opal/power-mgt'' = Some ?np"
    by (simp add: of_find_node_by_path_def power_mgt_tree_def)
  have fl: "?np ''ibm,cpu-idle-state-flags'' = Some ?fl"
    by simp
  have lat: "?np ''ibm,cpu-idle-state-latencies-ns'' = Some ?lat"
    by simp
  have len: "length ?fl div 4 \<le> length ?lat div 4"
    by code_simp
  have fits: "state_slot ?fl (length ?fl div 4) \<le> MAX_POWERNV_IDLE_STATES"
    by code_simp
  have i: "1 < length ?fl div 4"
    by code_simp
  have bit: "be32_value ?fl 1 AND IDLE_USE_INST_SLEEP \<noteq> 0"
    by code_simp
  have vals: "fastsleep_slot ?fl 1 = 2" "be32_value ?lat 1 div 1000 = 300"
    "be32_value ?lat 1 div 100 = 3000"
    by code_simp+
  from probe_state_from_latency [OF node fl lat len fits i] bit
  show ?thesis unfolding vals by blast
qed

text \<open>
  Claim C10. A flag word with both bits set yields two consecutive states: the nap
  state in slot \<open>state_slot fl i\<close> and the fast sleep state in the next slot, both inside
  the populated part of the table, and both with the exit latency and the target
  residency derived from latency cell \<open>i\<close>. The next flag word starts two slots on.
\<close>

theorem probe_nap_before_fastsleep:
  assumes node: "of_find_node_by_path dt ''/ibm,opal/power-mgt'' = Some np"
    and fl: "np ''ibm,cpu-idle-state-flags'' = Some fl"
    and lat: "np ''ibm,cpu-idle-state-latencies-ns'' = Some lat"
    and len: "length fl div 4 \<le> length lat div 4"
    and fits: "state_slot fl (length fl div 4) \<le> MAX_POWERNV_IDLE_STATES"
    and i: "i < length fl div 4"
    and nap: "be32_value fl i AND IDLE_USE_INST_NAP \<noteq> 0"
    and sleep: "be32_value fl i AND IDLE_USE_INST_SLEEP \<noteq> 0"
  shows "\<exists>r. powernv_add_idle_states dt powernv_states = Inr r \<and>
     state_slot fl i + 1 < nr_idle_states r \<and>
     state_slot fl (Suc i) = state_slot fl i + 2 \<and>
     enter (states_table r ! state_slot fl i) = Some Addr_nap_loop \<and>
     enter (states_table r ! (state_slot fl i + 1)) = Some Addr_fastsleep_loop \<and>
     exit_latency (states_table r ! state_slot fl i) = be32_value lat i div 1000 \<and>
     exit_latency (states_table r ! (state_slot fl i + 1)) = be32_value lat i div 1000 \<and>
     target_residency (states_table r ! state_slot fl i) = be32_value lat i div 100 \<and>
     target_residency (states_table r ! (state_slot fl i + 1)) = be32_value lat i div 100"
proof -
  let ?f = "be32_value fl i" and ?l = "be32_value lat i"
  from probe_returns [OF node fl lat len fits]
  obtain r where r: "powernv_add_idle_states dt powernv_states = Inr r" ..
  note slot = probe_slot [OF node fl lat len fits i _ r]
  have caps: "capabilities ?f = 2"
    using nap sleep by (simp add: capabilities_def)
  have new: "new_states ?f ?l = [nap_state ?l, fastsleep_state ?l]"
    using nap sleep by (simp add: new_states_def)
  have "state_slot fl (Suc i) = state_slot fl i + 2"
    by (simp add: state_slot_def caps)
  with slot [of 0] slot [of 1] r show ?thesis
    by (simp add: caps new nap_fields fastsleep_fields)
qed

theorem probe_nap_before_fastsleep_witness:
  "\<exists>r. powernv_add_idle_states
          (power_mgt_tree (be32_array [0x00030000]) (be32_array [10000])) powernv_states = Inr r \<and>
       enter (states_table r ! 1) = Some Addr_nap_loop \<and>
       enter (states_table r ! 2) = Some Addr_fastsleep_loop \<and>
       exit_latency (states_table r ! 1) = 10 \<and>
       exit_latency (states_table r ! 2) = 10 \<and>
       target_residency (states_table r ! 1) = 100 \<and>
       target_residency (states_table r ! 2) = 100"
proof -
  let ?fl = "be32_array [0x00030000]" and ?lat = "be32_array [10000]"
  let ?np = "[''ibm,cpu-idle-state-flags'' \<mapsto> ?fl, ''ibm,cpu-idle-state-latencies-ns'' \<mapsto> ?lat]"
  have node: "of_find_node_by_path (power_mgt_tree ?fl ?lat) ''/ibm,opal/power-mgt'' = Some ?np"
    by (simp add: of_find_node_by_path_def power_mgt_tree_def)
  have fl: "?np ''ibm,cpu-idle-state-flags'' = Some ?fl"
    by simp
  have lat: "?np ''ibm,cpu-idle-state-latencies-ns'' = Some ?lat"
    by simp
  have len: "length ?fl div 4 \<le> length ?lat div 4"
    by code_simp
  have fits: "state_slot ?fl (length ?fl div 4) \<le> MAX_POWERNV_IDLE_STATES"
    by code_simp
  have i: "0 < length ?fl div 4"
    by code_simp
  have bits: "be32_value ?fl 0 AND IDLE_USE_INST_NAP \<noteq> 0"
    "be32_value ?fl 0 AND IDLE_USE_INST_SLEEP \<noteq> 0"
    by code_simp+
  have vals: "state_slot ?fl 0 = 1" "(1 :: nat) + 1 = 2" "be32_value ?lat 0 div 1000 = 10"
    "be32_value ?lat 0 div 100 = 100"
    by code_simp+
  from probe_nap_before_fastsleep [OF node fl lat len fits i bits]
  show ?thesis unfolding vals by blast
qed

text \<open>
  Claim C6, as the code has it. When the latency array has at least as many cells as the
  flags array and the states fit the table, the probe returns 1 plus the number of
  recognized capabilities, a flag word with both bits counting twice; this holds
  whatever the order of the latencies. The probe stores the states in array order and
  does not sort them, so the exit latencies of the populated slots are non-decreasing
  when the latencies of the flag words with a recognized capability are non-decreasing
  in array order.
\<close>

theorem probe_count_and_latency_order:
  assumes node: "of_find_node_by_path dt ''/ibm,opal/power-mgt'' = Some np"
    and fl: "np ''ibm,cpu-idle-state-flags'' = Some fl"
    and lat: "np ''ibm,cpu-idle-state-latencies-ns'' = Some lat"
    and len: "length fl div 4 \<le> length lat div 4"
    and fits: "state_slot fl (length fl div 4) \<le> MAX_POWERNV_IDLE_STATES"
  shows "\<exists>r. powernv_add_idle_states dt powernv_states = Inr r \<and>
     nr_idle_states r =
       1 + sum_list (map (\<lambda>j. capabilities (be32_value fl j)) [0..<length fl div 4]) \<and>
     (sorted (recognized_latencies fl lat) \<longrightarrow>
        sorted (map exit_latency (take (nr_idle_states r) (states_table r))))"
proof -
  from probe_returns [OF node fl lat len fits]
  obtain r where r: "powernv_add_idle_states dt powernv_states = Inr r" ..
  have "nr_idle_states r = state_slot fl (length fl div 4)"
    using probe_result [OF node fl lat len, of powernv_states] fits r
    by (auto simp: length_powernv_states)
  then have count: "nr_idle_states r =
      1 + sum_list (map (\<lambda>j. capabilities (be32_value fl j)) [0..<length fl div 4])"
    by (simp add: state_slot_def)
  have order: "sorted (map exit_latency (take (nr_idle_states r) (states_table r)))"
    if ordered: "sorted (recognized_latencies fl lat)"
    using sorted_exit_latencies [OF sorted_dt_latencies [OF ordered]]
    by (simp only: probe_exit_latencies [OF node fl lat len fits r])
  from r count order show ?thesis by blast
qed

theorem probe_count_and_latency_order_witness:
  "(\<exists>r. powernv_add_idle_states
          (power_mgt_tree (be32_array [0x00030000, 0, 0x00020000])
             (be32_array [10000, 5, 300000])) powernv_states = Inr r \<and>
       nr_idle_states r = 4 \<and>
       sorted (map exit_latency (take (nr_idle_states r) (states_table r)))) \<and>
   (\<exists>r. powernv_add_idle_states
          (power_mgt_tree (be32_array [0x00010000, 0x00010000])
             (be32_array [20000, 10000])) powernv_states = Inr r \<and>
       nr_idle_states r = 3)"
proof -
  let ?fl = "be32_array [0x00030000, 0, 0x00020000]" and ?lat = "be32_array [10000, 5, 300000]"
  let ?np = "[''ibm,cpu-idle-state-flags'' \<mapsto> ?fl, ''ibm,cpu-idle-state-latencies-ns'' \<mapsto> ?lat]"
  have node: "of_find_node_by_path (power_mgt_tree ?fl ?lat) ''/ibm,opal/power-mgt'' = Some ?np"
    by (simp add: of_find_node_by_path_def power_mgt_tree_def)
  have fl: "?np ''ibm,cpu-idle-state-flags'' = Some ?fl"
    by simp
  have lat: "?np ''ibm,cpu-idle-state-latencies-ns'' = Some ?lat"
    by simp
  have len: "length ?fl div 4 \<le> length ?lat div 4"
    by code_simp
  have fits: "state_slot ?fl (length ?fl div 4) \<le> MAX_POWERNV_IDLE_STATES"
    by code_simp
  have ordered: "sorted (recognized_latencies ?fl ?lat)"
    by code_simp
  have count: "1 + sum_list (map (\<lambda>j. capabilities (be32_value ?fl j)) [0..<length ?fl div 4]) = 4"
    by code_simp
  have first: "\<exists>r. powernv_add_idle_states (power_mgt_tree ?fl ?lat) powernv_states = Inr r \<and>
       nr_idle_states r = 4 \<and>
       sorted (map exit_latency (take (nr_idle_states r) (states_table r)))"
    using probe_count_and_latency_order [OF node fl lat len fits] ordered
    unfolding count by blast
  let ?fl' = "be32_array [0x00010000, 0x00010000]" and ?lat' = "be32_array [20000, 10000]"
  let ?np' = "[''ibm,cpu-idle-state-flags'' \<mapsto> ?fl', ''ibm,cpu-idle-state-latencies-ns'' \<mapsto> ?lat']"
  have node': "of_find_node_by_path (power_mgt_tree ?fl' ?lat') ''/ibm,opal/power-mgt'' = Some ?np'"
    by (simp add: of_find_node_by_path_def power_mgt_tree_def)
  have fl': "?np' ''ibm,cpu-idle-state-flags'' = Some ?fl'"
    by simp
  have lat': "?np' ''ibm,cpu-idle-state-latencies-ns'' = Some ?lat'"
    by simp
  have len': "length ?fl' div 4 \<le> length ?lat' div 4"
    by code_simp
  have fits': "state_slot ?fl' (length ?fl' div 4) \<le> MAX_POWERNV_IDLE_STATES"
    by code_simp
  have count': "1 + sum_list (map (\<lambda>j. capabilities (be32_value ?fl' j)) [0..<length ?fl' div 4]) = 3"
    by code_simp
  have second: "\<exists>r. powernv_add_idle_states (power_mgt_tree ?fl' ?lat') powernv_states = Inr r \<and>
       nr_idle_states r = 3"
    using probe_count_and_latency_order [OF node' fl' lat' len' fits']
    unfolding count' by blast
  from first second show ?thesis by blast
qed

text \<open>
  The order fails as the claim words it: the flags \<open>[0x00010000, 0x00010000]\<close> with the
  latencies \<open>[20000, 10000]\<close> are two arrays of the same length whose three states fit
  the table, and the populated slots have the exit latencies 0, 20 and 10.
\<close>

theorem probe_latency_order_not_sorted:
  "length (be32_array [0x00010000, 0x00010000]) = length (be32_array [20000, 10000]) \<and>
   powernv_add_idle_states
     (power_mgt_tree (be32_array [0x00010000, 0x00010000]) (be32_array [20000, 10000]))
     powernv_states =
     Inr \<lparr>nr_idle_states = 3,
          states_table = powernv_states
            [1 := nap_state 20000 (powernv_states ! 1),
             2 := nap_state 10000 (powernv_states ! 2)],
          pr_warn = []\<rparr> \<and>
   map exit_latency
     (take 3 (powernv_states
        [1 := nap_state 20000 (powernv_states ! 1),
         2 := nap_state 10000 (powernv_states ! 2)])) = [0, 20, 10] \<and>
   \<not> sorted (map exit_latency
     (take 3 (powernv_states
        [1 := nap_state 20000 (powernv_states ! 1),
         2 := nap_state 10000 (powernv_states ! 2)])))"
  by code_simp

subsection \<open>Degenerate and oversized capability inputs\<close>

text \<open>
  Claim C2, as the code has it. When the \<open>/ibm,opal/power-mgt\<close> node is absent, or it
  has no flags property, or it has no latencies property, the probe returns 1, leaves
  the table as it was, with the snooze state in slot 0, and writes one warning. The
  probe never compares the lengths of the two properties.
\<close>

theorem probe_missing_capability_polling_only:
  assumes "of_find_node_by_path dt ''/ibm,opal/power-mgt'' = None \<or>
     (\<exists>np. of_find_node_by_path dt ''/ibm,opal/power-mgt'' = Some np \<and>
        (np ''ibm,cpu-idle-state-flags'' = None \<or>
         np ''ibm,cpu-idle-state-latencies-ns'' = None))"
  shows "\<exists>r w. powernv_add_idle_states dt powernv_states = Inr r \<and>
     nr_idle_states r = 1 \<and> states_table r = powernv_states \<and> pr_warn r = [w] \<and>
     enter (states_table r ! 0) = Some Addr_snooze_loop"
proof -
  have "enter (powernv_states ! 0) = Some Addr_snooze_loop"
    by (simp add: powernv_states_def)
  with assms show ?thesis
    by (auto simp: powernv_add_idle_states_def of_get_property_def split: option.splits)
qed

theorem probe_missing_capability_polling_only_witness:
  "(\<exists>r w. powernv_add_idle_states Map.empty powernv_states = Inr r \<and>
      nr_idle_states r = 1 \<and> states_table r = powernv_states \<and> pr_warn r = [w] \<and>
      enter (states_table r ! 0) = Some Addr_snooze_loop) \<and>
   (\<exists>r w. powernv_add_idle_states
        [''/ibm,opal/power-mgt'' \<mapsto>
           [''ibm,cpu-idle-state-flags'' \<mapsto> be32_array [0x00010000]]] powernv_states = Inr r \<and>
      nr_idle_states r = 1 \<and> states_table r = powernv_states \<and> pr_warn r = [w] \<and>
      enter (states_table r ! 0) = Some Addr_snooze_loop)"
proof -
  let ?np = "[''ibm,cpu-idle-state-flags'' \<mapsto> be32_array [0x00010000]]"
  let ?dt = "[''/ibm,opal/power-mgt'' \<mapsto> ?np]"
  have absent: "of_find_node_by_path Map.empty ''/ibm,opal/power-mgt'' = None \<or>
     (\<exists>np. of_find_node_by_path Map.empty ''/ibm,opal/power-mgt'' = Some np \<and>
        (np ''ibm,cpu-idle-state-flags'' = None \<or>
         np ''ibm,cpu-idle-state-latencies-ns'' = None))"
    by (simp add: of_find_node_by_path_def)
  have "of_find_node_by_path ?dt ''/ibm,opal/power-mgt'' = Some ?np \<and>
      ?np ''ibm,cpu-idle-state-latencies-ns'' = None"
    by (simp add: of_find_node_by_path_def)
  then have missing: "of_find_node_by_path ?dt ''/ibm,opal/power-mgt'' = None \<or>
     (\<exists>np. of_find_node_by_path ?dt ''/ibm,opal/power-mgt'' = Some np \<and>
        (np ''ibm,cpu-idle-state-flags'' = None \<or>
         np ''ibm,cpu-idle-state-latencies-ns'' = None))"
    by blast
  from probe_missing_capability_polling_only [OF absent]
    probe_missing_capability_polling_only [OF missing]
  show ?thesis by blast
qed

text \<open>
  Arrays of different lengths are not rejected: with one flag word and two latency
  cells the probe adds the nap state and returns 2.
\<close>

theorem probe_mismatched_lengths_not_polling_only:
  "length (be32_array [0x00010000]) \<noteq> length (be32_array [10000, 20000]) \<and>
   powernv_add_idle_states
     (power_mgt_tree (be32_array [0x00010000]) (be32_array [10000, 20000])) powernv_states =
     Inr \<lparr>nr_idle_states = 2,
          states_table = powernv_states [1 := nap_state 10000 (powernv_states ! 1)],
          pr_warn = []\<rparr>"
  by code_simp

text \<open>
  Claim C1 does not hold of the code. The loop stores to \<open>powernv_states[nr_idle_states]\<close>
  without comparing the index with \<open>MAX_POWERNV_IDLE_STATES\<close>: four flag words with both
  bits set ask for eight states after the snooze state, and the eighth store goes to
  index 8, one past the last slot of the array. By \<open>probe_overflow\<close> every input with
  more than seven recognized capabilities ends in that store.
\<close>

theorem probe_stores_past_table:
  "length powernv_states = 8 \<and>
   powernv_add_idle_states
     (power_mgt_tree (be32_array [0x00030000, 0x00030000, 0x00030000, 0x00030000])
        (be32_array [10000, 20000, 30000, 40000])) powernv_states =
     Inl (Powernv_states_out_of_bounds 8)"
  by code_simp

end
